theory Spec2Isabelle
  imports Complex_Main "HOL-Library.Sublist"
begin

section \<open>Data model\<close>

text \<open>
  The program is \<^verbatim>\<open>kanji_book_cloud_vision.py\<close>. Python's \<^verbatim>\<open>str\<close> values are held as
  \<^typ>\<open>string\<close>, the text in its UTF-8 form: concatenation is \<open>@\<close>, and a test of the first
  character against an ASCII class is a test of the first element, because a character
  outside ASCII never starts with a byte below 128. Python's integers are \<^typ>\<open>int\<close>.
  Exceptions are values of \<open>error\<close>; the only one the modelled functions raise on a
  well-typed input is the \<^verbatim>\<open>IndexError\<close> of an index out of range.
\<close>

datatype error = IndexError

text \<open>The dataclass \<^verbatim>\<open>Word\<close>, with its fields in the order of the source.\<close>

record Word =
  string :: string
  yb :: int
  yt :: int
  xl :: int
  xr :: int
  iskanji :: bool

text \<open>
  \<^verbatim>\<open>Word.copy\<close> builds a new object with the same fields. In the merge loop the buffer is
  always such a copy when \<^verbatim>\<open>merge\<close> mutates it, and a buffer that has been appended to the
  result is replaced by a new copy before the next mutation, so no object reachable from
  a list is ever changed: values stand for the objects.
\<close>

definition copy :: "Word \<Rightarrow> Word" where
  "copy self = self"

definition merge :: "Word \<Rightarrow> Word \<Rightarrow> Word" where
  "merge self next = self\<lparr>string := string self @ string next, xr := xr next\<rparr>"

text \<open>
  \<^verbatim>\<open>Word.to_yaml_dict\<close>. In the second branch the source encodes the text to UTF-8 and
  decodes it again; on text held in its UTF-8 form both are the identity.
\<close>

definition to_yaml_dict :: "Word \<Rightarrow> (string \<rightharpoonup> string)" where
  "to_yaml_dict self =
     (if iskanji self then [''string'' \<mapsto> string self, ''type'' \<mapsto> ''kanji'']
      else (let string_encoded = string self
            in [''string'' \<mapsto> string_encoded, ''type'' \<mapsto> ''vocab'']))"

text \<open>
  The list comprehension of \<^verbatim>\<open>main\<close> whose value is handed to the YAML serializer:
  \<^verbatim>\<open>[q.to_yaml_dict() for q in queries]\<close>.
\<close>

fun yaml_records :: "Word list \<Rightarrow> (string \<rightharpoonup> string) list" where
  "yaml_records [] = []"
| "yaml_records (q # queries) = to_yaml_dict q # yaml_records queries"

text \<open>
  The configuration is the dictionary read from the TOML file; the model takes one that
  has every key the functions read, with numbers as values. The confidence threshold is a
  float that is only ever compared, so it is a \<^typ>\<open>real\<close>.
\<close>

record config =
  min_confidence :: real
  min_word_height :: int
  min_kanji_height :: int
  min_interword_distance :: int
  max_distance_from_kanji_top :: int
  max_distance_from_kanji_bottom :: int

section \<open>The OCR response\<close>

text \<open>
  The part of the Cloud Vision response that \<^verbatim>\<open>words_raw_from_response\<close> reads: pages,
  blocks, paragraphs, words and symbols, each word with the vertices of its bounding box
  and a confidence.
\<close>

record Symbol =
  "text" :: string

record Vertex =
  x :: int
  y :: int

record BoundingPoly =
  vertices :: "Vertex list"

record OcrWord =
  symbols :: "Symbol list"
  bounding_box :: BoundingPoly
  confidence :: real

record Paragraph =
  words :: "OcrWord list"

record Block =
  paragraphs :: "Paragraph list"

record Page =
  blocks :: "Block list"

record TextAnnotation =
  pages :: "Page list"

record AnnotateFileResponse =
  full_text_annotation :: TextAnnotation

text \<open>Indexing a sequence with a non-negative literal: out of range raises.\<close>

definition index :: "'a list \<Rightarrow> nat \<Rightarrow> error + 'a" where
  "index vs i = (if i < length vs then Inr (vs ! i) else Inl IndexError)"

text \<open>
  The body of the innermost loop of \<^verbatim>\<open>words_raw_from_response\<close>, for one word of a
  paragraph; \<open>words_raw\<close> is the list built so far. The height reads
  \<^verbatim>\<open>vertices[2]\<close> before \<^verbatim>\<open>vertices[0]\<close>, and the constructor call reads
  \<^verbatim>\<open>vertices[1]\<close> last.
\<close>

definition word_body :: "config \<Rightarrow> OcrWord \<Rightarrow> Word list \<Rightarrow> error + Word list" where
  "word_body cfg word words_raw =
     (let word_text = concat (map text (symbols word));
          bbox = bounding_box word
      in case index (vertices bbox) 2 of
           Inl e \<Rightarrow> Inl e
         | Inr v2 \<Rightarrow>
             (case index (vertices bbox) 0 of
                Inl e \<Rightarrow> Inl e
              | Inr v0 \<Rightarrow>
                  (let bheight = \<bar>y v2 - y v0\<bar>
                   in if confidence word \<ge> min_confidence cfg \<and> bheight \<ge> min_word_height cfg
                      then (case index (vertices bbox) 1 of
                              Inl e \<Rightarrow> Inl e
                            | Inr v1 \<Rightarrow>
                                Inr (words_raw @
                                  [\<lparr>string = word_text, yb = y v2, yt = y v0, xl = x v0,
                                    xr = x v1,
                                    iskanji = (if bheight \<ge> min_kanji_height cfg then True
                                               else False)\<rparr>]))
                      else Inr words_raw)))"

text \<open>The four nested loops, each over the sequence of the level above.\<close>

fun word_loop :: "config \<Rightarrow> OcrWord list \<Rightarrow> Word list \<Rightarrow> error + Word list" where
  "word_loop cfg [] words_raw = Inr words_raw"
| "word_loop cfg (word # rest) words_raw =
     (case word_body cfg word words_raw of
        Inl e \<Rightarrow> Inl e
      | Inr words_raw' \<Rightarrow> word_loop cfg rest words_raw')"

fun paragraph_loop :: "config \<Rightarrow> Paragraph list \<Rightarrow> Word list \<Rightarrow> error + Word list" where
  "paragraph_loop cfg [] words_raw = Inr words_raw"
| "paragraph_loop cfg (paragraph # rest) words_raw =
     (case word_loop cfg (words paragraph) words_raw of
        Inl e \<Rightarrow> Inl e
      | Inr words_raw' \<Rightarrow> paragraph_loop cfg rest words_raw')"

fun block_loop :: "config \<Rightarrow> Block list \<Rightarrow> Word list \<Rightarrow> error + Word list" where
  "block_loop cfg [] words_raw = Inr words_raw"
| "block_loop cfg (block # rest) words_raw =
     (case paragraph_loop cfg (paragraphs block) words_raw of
        Inl e \<Rightarrow> Inl e
      | Inr words_raw' \<Rightarrow> block_loop cfg rest words_raw')"

fun page_loop :: "config \<Rightarrow> Page list \<Rightarrow> Word list \<Rightarrow> error + Word list" where
  "page_loop cfg [] words_raw = Inr words_raw"
| "page_loop cfg (page # rest) words_raw =
     (case block_loop cfg (blocks page) words_raw of
        Inl e \<Rightarrow> Inl e
      | Inr words_raw' \<Rightarrow> page_loop cfg rest words_raw')"

definition words_raw_from_response :: "AnnotateFileResponse \<Rightarrow> config \<Rightarrow> error + Word list" where
  "words_raw_from_response response cfg =
     page_loop cfg (pages (full_text_annotation response)) []"

section \<open>Merging and grouping\<close>

text \<open>
  The compiled pattern \<^verbatim>\<open>[A-Za-z0-9/-]\<close> is one character class: three ranges and two
  single characters (the hyphen, last in the class, stands for itself).
  \<^verbatim>\<open>regex.match\<close> tries the pattern at the start of the text only.
\<close>

datatype class_item = Range char char | Lit char

fun item_match :: "class_item \<Rightarrow> char \<Rightarrow> bool" where
  "item_match (Range lo hi) c = ((of_char lo :: nat) \<le> of_char c \<and> (of_char c :: nat) \<le> of_char hi)"
| "item_match (Lit l) c = (c = l)"

definition regex :: "class_item list" where
  "regex = [Range (CHR ''A'') (CHR ''Z''), Range (CHR ''a'') (CHR ''z''),
            Range (CHR ''0'') (CHR ''9''), Lit (CHR ''/''), Lit (CHR ''-'')]"

fun re_match :: "class_item list \<Rightarrow> string \<Rightarrow> bool" where
  "re_match cls [] = False"
| "re_match cls (c # cs) = list_ex (\<lambda>i. item_match i c) cls"

text \<open>
  One pass of the merge loop at index \<open>idx\<close>: \<open>cur\<close> is \<^verbatim>\<open>words_raw[idx]\<close>, \<open>nxt\<close> is
  \<^verbatim>\<open>words_raw[idx + 1]\<close>, and the state is the triple of the source's variables
  \<^verbatim>\<open>words\<close>, \<^verbatim>\<open>buffer_set\<close> and \<^verbatim>\<open>buffer\<close>.
\<close>

definition loop_body ::
  "config \<Rightarrow> Word \<Rightarrow> Word \<Rightarrow> Word list \<times> bool \<times> Word \<Rightarrow> Word list \<times> bool \<times> Word" where
  "loop_body cfg cur nxt st =
     (case st of (ws, buffer_set, buffer) \<Rightarrow>
        if iskanji cur = True then (ws @ [copy cur], False, buffer)
        else (let buffer = (if buffer_set = False then copy cur else buffer)
              in if \<bar>xl nxt - xr cur\<bar> \<le> min_interword_distance cfg
                 then (ws, True, merge buffer nxt)
                 else (ws @ [buffer], False, buffer)))"

text \<open>
  The loop \<^verbatim>\<open>for idx in range(len(words_raw) - 1)\<close> visits every adjacent pair of the
  list, in order; a list with fewer than two elements has none.
\<close>

fun merge_loop ::
  "config \<Rightarrow> Word list \<Rightarrow> Word list \<times> bool \<times> Word \<Rightarrow> Word list \<times> bool \<times> Word" where
  "merge_loop cfg (cur # nxt # rest) st = merge_loop cfg (nxt # rest) (loop_body cfg cur nxt st)"
| "merge_loop cfg [cur] st = st"
| "merge_loop cfg [] st = st"

text \<open>
  The flush after the loop: the buffer when one is in progress, \<^verbatim>\<open>words_raw[-1]\<close>
  otherwise (the list is not empty when the flush is reached).
\<close>

definition flush :: "Word list \<Rightarrow> Word list \<times> bool \<times> Word \<Rightarrow> Word list" where
  "flush words_raw st =
     (case st of (ws, buffer_set, buffer) \<Rightarrow>
        if buffer_set = True then ws @ [buffer] else ws @ [last words_raw])"

text \<open>
  The merge pass: the initial state, whose buffer is a copy of \<^verbatim>\<open>words_raw[0]\<close> (the
  read raises on an empty list), the loop, and the flush.
\<close>

definition merge_words :: "config \<Rightarrow> Word list \<Rightarrow> error + Word list" where
  "merge_words cfg words_raw =
     (case index words_raw 0 of
        Inl e \<Rightarrow> Inl e
      | Inr first \<Rightarrow> Inr (flush words_raw (merge_loop cfg words_raw ([], False, copy first))))"

text \<open>The inner loop of the grouping, \<^verbatim>\<open>for k in words\<close>, for one kanji.\<close>

fun vocab_loop :: "int \<Rightarrow> int \<Rightarrow> Word list \<Rightarrow> Word list \<Rightarrow> Word list" where
  "vocab_loop kanjit kanjib [] queries = queries"
| "vocab_loop kanjit kanjib (k # rest) queries =
     vocab_loop kanjit kanjib rest
       (if yt k \<ge> kanjit \<and> yb k \<le> kanjib \<and> iskanji k = False then queries @ [k]
        else queries)"

text \<open>
  The outer loop, \<^verbatim>\<open>for word in words\<close>; \<open>ws\<close> is the whole merged list, which the
  inner loop scans again for every kanji.
\<close>

fun kanji_loop :: "config \<Rightarrow> Word list \<Rightarrow> Word list \<Rightarrow> Word list \<Rightarrow> Word list" where
  "kanji_loop cfg ws [] queries = queries"
| "kanji_loop cfg ws (word # rest) queries =
     kanji_loop cfg ws rest
       (if iskanji word = True
        then (let queries = queries @ [word];
                  kanjit = yt word - max_distance_from_kanji_top cfg;
                  kanjib = yb word + max_distance_from_kanji_bottom cfg
              in vocab_loop kanjit kanjib ws queries)
        else queries)"

text \<open>
  \<^verbatim>\<open>merge_and_filter_words\<close>: the filter on the first character, the merge pass and
  the grouping.
\<close>

definition merge_and_filter_words :: "Word list \<Rightarrow> config \<Rightarrow> error + Word list" where
  "merge_and_filter_words words_raw cfg =
     (let words_raw = filter (\<lambda>w. \<not> re_match regex (string w)) words_raw
      in case merge_words cfg words_raw of
           Inl e \<Rightarrow> Inl e
         | Inr ws \<Rightarrow> Inr (kanji_loop cfg ws ws []))"

section \<open>Notions used to state the properties\<close>

text \<open>
  The candidate words of a response in traversal order: pages, then blocks, then
  paragraphs, then words.
\<close>

definition all_words :: "AnnotateFileResponse \<Rightarrow> OcrWord list" where
  "all_words response =
     concat (map words (concat (map paragraphs (concat (map blocks
       (pages (full_text_annotation response)))))))"

text \<open>The height of a candidate's bounding box, \<open>|vertices[2].y - vertices[0].y|\<close>.\<close>

definition box_height :: "OcrWord \<Rightarrow> int" where
  "box_height c = \<bar>y (vertices (bounding_box c) ! 2) - y (vertices (bounding_box c) ! 0)\<bar>"

definition discarded :: "config \<Rightarrow> OcrWord \<Rightarrow> bool" where
  "discarded cfg c = (confidence c < min_confidence cfg \<or> box_height c < min_word_height cfg)"

text \<open>The \<^verbatim>\<open>Word\<close> built from a candidate that is kept.\<close>

definition word_of :: "config \<Rightarrow> OcrWord \<Rightarrow> Word" where
  "word_of cfg c =
     \<lparr>string = concat (map text (symbols c)),
      yb = y (vertices (bounding_box c) ! 2),
      yt = y (vertices (bounding_box c) ! 0),
      xl = x (vertices (bounding_box c) ! 0),
      xr = x (vertices (bounding_box c) ! 1),
      iskanji = (min_kanji_height cfg \<le> box_height c)\<rparr>"

text \<open>A bounding box with the three vertices the extractor reads.\<close>

definition has_box :: "OcrWord \<Rightarrow> bool" where
  "has_box c = (3 \<le> length (vertices (bounding_box c)))"

text \<open>
  The characters of the class \<open>[A-Za-z0-9/-]\<close>, written out, and the texts that begin
  with one of them.
\<close>

definition latin_chars :: string where
  "latin_chars = ''ABCDEFGHIJKLMNOPQRSTUVWXYZabcdefghijklmnopqrstuvwxyz0123456789/-''"

definition begins_latin :: "string \<Rightarrow> bool" where
  "begins_latin s = (case s of [] \<Rightarrow> False | c # cs \<Rightarrow> c \<in> set latin_chars)"

text \<open>
  The vertical band \<open>[yt v, yb v]\<close> of a word lies within the window of a kanji \<open>k\<close>,
  which is the band of \<open>k\<close> widened by the two distances of the configuration.
\<close>

definition within_window :: "config \<Rightarrow> Word \<Rightarrow> Word \<Rightarrow> bool" where
  "within_window cfg k v =
     (yt k - max_distance_from_kanji_top cfg \<le> yt v \<and>
      yb v \<le> yb k + max_distance_from_kanji_bottom cfg)"

text \<open>A kanji followed by the words of the merged list that are associated with it.\<close>

definition group_of :: "config \<Rightarrow> Word list \<Rightarrow> Word \<Rightarrow> Word list" where
  "group_of cfg merged k = k # filter (\<lambda>v. \<not> iskanji v \<and> within_window cfg k v) merged"

text \<open>
  A query list read from the left, \<open>cur\<close> being the most recent kanji seen: every word
  that is not a kanji has a kanji before it and lies within the window of the most recent
  one.
\<close>

fun grouped :: "config \<Rightarrow> Word option \<Rightarrow> Word list \<Rightarrow> bool" where
  "grouped cfg cur [] = True"
| "grouped cfg cur (q # qs) =
     (if iskanji q then grouped cfg (Some q) qs
      else (case cur of
              None \<Rightarrow> False
            | Some k \<Rightarrow> within_window cfg k q \<and> grouped cfg cur qs))"

text \<open>
  Two words in sequence are near when the left edge of the second is within
  \<open>min_interword_distance\<close> of the right edge of the first; a chain is a list whose
  consecutive words are near.
\<close>

definition near :: "config \<Rightarrow> Word \<Rightarrow> Word \<Rightarrow> bool" where
  "near cfg a b = (\<bar>xl b - xr a\<bar> \<le> min_interword_distance cfg)"

fun chain :: "config \<Rightarrow> Word list \<Rightarrow> bool" where
  "chain cfg (a # b # rest) = (near cfg a b \<and> chain cfg (b # rest))"
| "chain cfg [a] = True"
| "chain cfg [] = True"

text \<open>
  The merged word of a run as the specification has it: the texts concatenated from left
  to right, the right edge of the last fragment, everything else from the first.
\<close>

definition merged_run :: "Word list \<Rightarrow> Word" where
  "merged_run run =
     \<lparr>string = concat (map string run), yb = yb (hd run), yt = yt (hd run), xl = xl (hd run),
      xr = xr (last run), iskanji = iskanji (hd run)\<rparr>"

text \<open>The merge pass started anew on the rest of the input; nothing when there is no rest.\<close>

definition fresh :: "config \<Rightarrow> Word list \<Rightarrow> Word list" where
  "fresh cfg ws = (case merge_words cfg ws of Inl e \<Rightarrow> [] | Inr m \<Rightarrow> m)"

section \<open>Example inputs\<close>

text \<open>Five Japanese characters in UTF-8.\<close>

definition kan :: string where "kan = [CHR 0xE6, CHR 0xBC, CHR 0xA2]"
definition ji :: string where "ji = [CHR 0xE5, CHR 0xAD, CHR 0x97]"
definition ka :: string where "ka = [CHR 0xE3, CHR 0x81, CHR 0x8B]"
definition nn :: string where "nn = [CHR 0xE3, CHR 0x82, CHR 0x93]"
definition zi :: string where "zi = [CHR 0xE3, CHR 0x81, CHR 0x98]"

definition ex_cfg :: config where
  "ex_cfg = \<lparr>min_confidence = 0.5, min_word_height = 10, min_kanji_height = 40,
     min_interword_distance = 2, max_distance_from_kanji_top = 3,
     max_distance_from_kanji_bottom = 30\<rparr>"

text \<open>An axis-parallel box with its vertices in the order of the service.\<close>

definition box :: "int \<Rightarrow> int \<Rightarrow> int \<Rightarrow> int \<Rightarrow> BoundingPoly" where
  "box l t r b =
     \<lparr>vertices = [\<lparr>x = l, y = t\<rparr>, \<lparr>x = r, y = t\<rparr>, \<lparr>x = r, y = b\<rparr>, \<lparr>x = l, y = b\<rparr>]\<rparr>"

definition ocr_word :: "string list \<Rightarrow> BoundingPoly \<Rightarrow> real \<Rightarrow> OcrWord" where
  "ocr_word ts b c = \<lparr>symbols = map (\<lambda>t. \<lparr>text = t\<rparr>) ts, bounding_box = b, confidence = c\<rparr>"

text \<open>
  One page of two blocks: a tall word, a word of low confidence, a word that is too
  small, and an ordinary word.
\<close>

definition ex_response :: AnnotateFileResponse where
  "ex_response = \<lparr>full_text_annotation = \<lparr>pages = [\<lparr>blocks =
     [\<lparr>paragraphs = [\<lparr>words = [ocr_word [kan] (box 0 0 50 50) 0.9,
                                 ocr_word [ka, nn] (box 60 10 90 30) 0.4]\<rparr>,
                      \<lparr>words = []\<rparr>]\<rparr>,
      \<lparr>paragraphs = [\<lparr>words = [ocr_word [ka] (box 0 60 5 65) 0.9,
                                 ocr_word [ka, nn] (box 60 60 90 80) 0.8]\<rparr>]\<rparr>]\<rparr>]\<rparr>\<rparr>"

definition w_kan :: Word where
  "w_kan = \<lparr>string = kan, yb = 50, yt = 0, xl = 0, xr = 50, iskanji = True\<rparr>"

definition w_kana :: Word where
  "w_kana = \<lparr>string = ka @ nn, yb = 80, yt = 60, xl = 60, xr = 90, iskanji = False\<rparr>"

definition w_3d :: Word where
  "w_3d = \<lparr>string = ''3D'', yb = 50, yt = 0, xl = 100, xr = 150, iskanji = True\<rparr>"

text \<open>
  A small word that ends one pixel before a kanji begins, and a third word below them.
\<close>

definition w_kan2 :: Word where
  "w_kan2 = \<lparr>string = ka @ nn, yb = 30, yt = 10, xl = 60, xr = 90, iskanji = False\<rparr>"

definition w_ji :: Word where
  "w_ji = \<lparr>string = ji, yb = 50, yt = 0, xl = 91, xr = 141, iskanji = True\<rparr>"

definition w_ka :: Word where
  "w_ka = \<lparr>string = ka, yb = 65, yt = 60, xl = 0, xr = 5, iskanji = False\<rparr>"

text \<open>The same small word as two fragments one pixel apart.\<close>

definition w_ka_l :: Word where
  "w_ka_l = \<lparr>string = ka, yb = 30, yt = 10, xl = 60, xr = 74, iskanji = False\<rparr>"

definition w_nn_r :: Word where
  "w_nn_r = \<lparr>string = nn, yb = 30, yt = 10, xl = 75, xr = 90, iskanji = False\<rparr>"

text \<open>
  The scenario of the specification: two kanji in one line and, below them, a word in
  two fragments; the lower distance is 10, so that the word lies in both windows.
\<close>

definition scenario_cfg :: config where
  "scenario_cfg = \<lparr>min_confidence = 0.5, min_word_height = 5, min_kanji_height = 10,
     min_interword_distance = 2, max_distance_from_kanji_top = 3,
     max_distance_from_kanji_bottom = 10\<rparr>"

definition s_kan :: Word where
  "s_kan = \<lparr>string = kan, yb = 10, yt = 0, xl = 0, xr = 10, iskanji = True\<rparr>"

definition s_ji :: Word where
  "s_ji = \<lparr>string = ji, yb = 10, yt = 0, xl = 12, xr = 22, iskanji = True\<rparr>"

definition s_kan2 :: Word where
  "s_kan2 = \<lparr>string = ka @ nn, yb = 20, yt = 12, xl = 0, xr = 5, iskanji = False\<rparr>"

definition s_zi :: Word where
  "s_zi = \<lparr>string = zi, yb = 20, yt = 12, xl = 6, xr = 9, iskanji = False\<rparr>"

definition s_kanzi :: Word where
  "s_kanzi = \<lparr>string = ka @ nn @ zi, yb = 20, yt = 12, xl = 0, xr = 9, iskanji = False\<rparr>"

section \<open>The extractor\<close>

lemma word_body_eq:
  "word_body cfg c acc =
     (if has_box c
      then Inr (if discarded cfg c then acc else acc @ [word_of cfg c])
      else Inl IndexError)"
  by (auto simp: word_body_def has_box_def index_def discarded_def word_of_def box_height_def Let_def)

lemma word_loop_eq:
  "word_loop cfg cs acc =
     (if list_all has_box cs
      then Inr (acc @ map (word_of cfg) (filter (\<lambda>c. \<not> discarded cfg c) cs))
      else Inl IndexError)"
  by (induction cs arbitrary: acc) (simp_all add: word_body_eq)

lemma paragraph_loop_eq:
  "paragraph_loop cfg ps acc =
     (if list_all has_box (concat (map words ps))
      then Inr (acc @ map (word_of cfg) (filter (\<lambda>c. \<not> discarded cfg c) (concat (map words ps))))
      else Inl IndexError)"
  by (induction ps arbitrary: acc) (simp_all add: word_loop_eq)

lemma block_loop_eq:
  "block_loop cfg bs acc =
     (if list_all has_box (concat (map words (concat (map paragraphs bs))))
      then Inr (acc @ map (word_of cfg) (filter (\<lambda>c. \<not> discarded cfg c)
             (concat (map words (concat (map paragraphs bs))))))
      else Inl IndexError)"
  by (induction bs arbitrary: acc) (simp_all add: paragraph_loop_eq)

lemma page_loop_eq:
  "page_loop cfg gs acc =
     (if list_all has_box (concat (map words (concat (map paragraphs (concat (map blocks gs))))))
      then Inr (acc @ map (word_of cfg) (filter (\<lambda>c. \<not> discarded cfg c)
             (concat (map words (concat (map paragraphs (concat (map blocks gs))))))))
      else Inl IndexError)"
  by (induction gs arbitrary: acc) (simp_all add: block_loop_eq)

lemma words_raw_from_response_eq:
  "words_raw_from_response response cfg =
     (if list_all has_box (all_words response)
      then Inr (map (word_of cfg) (filter (\<lambda>c. \<not> discarded cfg c) (all_words response)))
      else Inl IndexError)"
  by (simp add: words_raw_from_response_def all_words_def page_loop_eq)

lemma ex_all_words:
  "all_words ex_response =
     [ocr_word [kan] (box 0 0 50 50) 0.9, ocr_word [ka, nn] (box 60 10 90 30) 0.4,
      ocr_word [ka] (box 0 60 5 65) 0.9, ocr_word [ka, nn] (box 60 60 90 80) 0.8]"
  by (simp add: all_words_def ex_response_def)

lemma ex_words_raw:
  "words_raw_from_response ex_response ex_cfg = Inr [w_kan, w_kana]"
  by (simp add: words_raw_from_response_eq ex_all_words ocr_word_def box_def ex_cfg_def
      word_of_def box_height_def has_box_def discarded_def w_kan_def w_kana_def)

text \<open>
  C5. When every candidate word of the response has the vertices that the extractor
  reads, \<^verbatim>\<open>words_raw_from_response\<close> returns, in the traversal order of the response,
  the words built from exactly those candidates whose confidence is not below
  \<open>min_confidence\<close> and whose box height is not below \<open>min_word_height\<close>.
\<close>

theorem words_raw_from_response_filters:
  assumes "\<forall>c \<in> set (all_words response). 3 \<le> length (vertices (bounding_box c))"
  shows "words_raw_from_response response cfg =
      Inr (map (word_of cfg)
        (filter (\<lambda>c. \<not> (confidence c < min_confidence cfg \<or> box_height c < min_word_height cfg))
           (all_words response)))"
proof -
  from assms have "list_all has_box (all_words response)"
    by (simp add: list_all_iff has_box_def)
  then show ?thesis
    by (simp add: words_raw_from_response_eq discarded_def)
qed

theorem words_raw_from_response_filters_witness:
  "list_all (\<lambda>c. 3 \<le> length (vertices (bounding_box c))) (all_words ex_response) \<and>
   words_raw_from_response ex_response ex_cfg = Inr [w_kan, w_kana]"
proof -
  have wf: "\<forall>c \<in> set (all_words ex_response). 3 \<le> length (vertices (bounding_box c))"
    by (simp add: ex_all_words ocr_word_def box_def)
  show ?thesis
    using words_raw_from_response_filters [OF wf, of ex_cfg] wf
    by (simp add: ex_all_words ocr_word_def box_def ex_cfg_def word_of_def box_height_def
        list_all_iff w_kan_def w_kana_def)
qed

text \<open>
  C6. Every word that \<^verbatim>\<open>words_raw_from_response\<close> returns was built from a candidate of
  the response that passed both thresholds, and it is flagged as kanji exactly when the
  height of that candidate's box is at least \<open>min_kanji_height\<close>; a height below
  \<open>min_kanji_height\<close> gives a word that is not a kanji.
\<close>

theorem iskanji_iff_height:
  assumes "words_raw_from_response response cfg = Inr out" and "w \<in> set out"
  shows "\<exists>c \<in> set (all_words response).
           string w = concat (map text (symbols c)) \<and>
           \<bar>yb w - yt w\<bar> = box_height c \<and>
           min_confidence cfg \<le> confidence c \<and>
           min_word_height cfg \<le> box_height c \<and>
           (iskanji w \<longleftrightarrow> min_kanji_height cfg \<le> box_height c) \<and>
           (box_height c < min_kanji_height cfg \<longrightarrow> iskanji w = False)"
proof -
  from assms(1)
  have "out = map (word_of cfg) (filter (\<lambda>c. \<not> discarded cfg c) (all_words response))"
    by (simp add: words_raw_from_response_eq split: if_splits)
  with assms(2) obtain c
    where c: "c \<in> set (all_words response)" "\<not> discarded cfg c" "w = word_of cfg c"
    by auto
  then show ?thesis
    by (intro bexI [of _ c]) (auto simp: word_of_def box_height_def discarded_def)
qed

theorem iskanji_iff_height_witness:
  "words_raw_from_response ex_response ex_cfg = Inr [w_kan, w_kana] \<and>
   (\<exists>c \<in> set (all_words ex_response).
      string w_kana = concat (map text (symbols c)) \<and> box_height c = 20 \<and>
      min_word_height ex_cfg \<le> box_height c \<and> box_height c < min_kanji_height ex_cfg \<and>
      iskanji w_kana = False)"
proof -
  have mem: "w_kana \<in> set [w_kan, w_kana]" by simp
  from iskanji_iff_height [OF ex_words_raw mem] ex_words_raw show ?thesis
    by (auto simp: ex_cfg_def w_kana_def)
qed

section \<open>The output records\<close>

lemma yaml_records_map: "yaml_records queries = map to_yaml_dict queries"
  by (induction queries) simp_all

text \<open>
  C8. The record of a word has exactly the keys \<open>string\<close> and \<open>type\<close>; the first holds
  the word's text and the second is \<open>kanji\<close> for a kanji and \<open>vocab\<close> otherwise. The list
  handed to the serializer has one record per query, in the order of the queries.
\<close>

theorem to_yaml_dict_fields:
  "dom (to_yaml_dict w) = {''string'', ''type''} \<and>
   to_yaml_dict w ''string'' = Some (string w) \<and>
   to_yaml_dict w ''type'' = Some (if iskanji w then ''kanji'' else ''vocab'') \<and>
   length (yaml_records queries) = length queries \<and>
   (\<forall>i < length queries. yaml_records queries ! i = to_yaml_dict (queries ! i))"
  by (auto simp: to_yaml_dict_def yaml_records_map)

theorem to_yaml_dict_fields_witness:
  "dom (to_yaml_dict w_kana) = {''string'', ''type''} \<and>
   to_yaml_dict w_kana ''string'' = Some (ka @ nn) \<and>
   to_yaml_dict w_kana ''type'' = Some ''vocab'' \<and>
   to_yaml_dict w_kan ''type'' = Some ''kanji'' \<and>
   yaml_records [w_kan, w_kana] ! 1 = to_yaml_dict w_kana"
  using to_yaml_dict_fields [of w_kana "[w_kan, w_kana]"] to_yaml_dict_fields [of w_kan "[]"]
  by (simp add: w_kana_def w_kan_def)

section \<open>The filter on the first character\<close>

text \<open>The class of the pattern holds exactly the characters written out above.\<close>

lemma class_by_code:
  "list_ex (\<lambda>i. item_match i c) regex \<longleftrightarrow>
     (65 \<le> (of_char c :: nat) \<and> (of_char c :: nat) \<le> 90) \<or>
     (97 \<le> (of_char c :: nat) \<and> (of_char c :: nat) \<le> 122) \<or>
     (48 \<le> (of_char c :: nat) \<and> (of_char c :: nat) \<le> 57) \<or>
     c = CHR ''/'' \<or> c = CHR ''-''"
  by (simp add: regex_def)

lemma latin_chars_by_code:
  "c \<in> set latin_chars \<longleftrightarrow> (of_char c :: nat) \<in> of_char ` set latin_chars"
  by (simp add: inj_image_mem_iff inj_on_def)

lemma latin_chars_codes:
  "(of_char ` set latin_chars :: nat set) =
     set ([65 ..< 91] @ [97 ..< 123] @ [48 ..< 58] @ [47, 45])"
  unfolding latin_chars_def by (simp add: upt_rec)

lemma code_ranges:
  "(n :: nat) \<in> set ([65 ..< 91] @ [97 ..< 123] @ [48 ..< 58] @ [47, 45]) \<longleftrightarrow>
     (65 \<le> n \<and> n \<le> 90) \<or> (97 \<le> n \<and> n \<le> 122) \<or> (48 \<le> n \<and> n \<le> 57) \<or>
     n = 47 \<or> n = 45"
  by (simp only: set_append Un_iff set_upt atLeastLessThan_iff) auto

lemma slash_code: "c = CHR ''/'' \<longleftrightarrow> (of_char c :: nat) = 47"
  using of_char_eq_iff [of c "CHR ''/''", where ?'a = nat] by simp

lemma hyphen_code: "c = CHR ''-'' \<longleftrightarrow> (of_char c :: nat) = 45"
  using of_char_eq_iff [of c "CHR ''-''", where ?'a = nat] by simp

lemma class_chars: "list_ex (\<lambda>i. item_match i c) regex \<longleftrightarrow> c \<in> set latin_chars"
  unfolding class_by_code latin_chars_by_code latin_chars_codes code_ranges
    slash_code hyphen_code ..

lemma re_match_begins: "re_match regex s = begins_latin s"
  by (cases s) (simp_all add: begins_latin_def class_chars)

lemmas eval_defs =
  merge_and_filter_words_def merge_words_def index_def regex_def loop_body_def
  flush_def copy_def merge_def kan_def ji_def ka_def nn_def zi_def

text \<open>
  C7. The list that reaches the merge pass is the input without exactly the words whose
  text begins with a character of \<open>[A-Za-z0-9/-]\<close>; only the first character of the text
  decides, no other field of the word does, and such a word anywhere in the input
  changes nothing in the result.
\<close>

theorem latin_prefix_removed_first:
  "merge_and_filter_words words_raw cfg =
     (case merge_words cfg (filter (\<lambda>w. \<not> begins_latin (string w)) words_raw) of
        Inl e \<Rightarrow> Inl e
      | Inr m \<Rightarrow> Inr (kanji_loop cfg m m [])) \<and>
   (begins_latin (string w) \<longrightarrow>
      merge_and_filter_words (pre @ w # post) cfg = merge_and_filter_words (pre @ post) cfg)"
  by (simp add: merge_and_filter_words_def re_match_begins)

theorem latin_prefix_removed_first_witness:
  "begins_latin (string w_3d) \<and> iskanji w_3d \<and>
   \<not> begins_latin (ka @ ''3D'') \<and>
   merge_and_filter_words ([w_kan] @ w_3d # [w_kana]) ex_cfg =
     merge_and_filter_words ([w_kan] @ [w_kana]) ex_cfg \<and>
   merge_and_filter_words ([w_kan] @ [w_kana]) ex_cfg = Inr [w_kan, w_kana]"
proof -
  have b: "begins_latin (string w_3d)"
    by (simp add: begins_latin_def latin_chars_def w_3d_def)
  have n: "\<not> begins_latin (ka @ ''3D'')"
    by (simp add: begins_latin_def latin_chars_def ka_def)
  have run: "merge_and_filter_words ([w_kan] @ [w_kana]) ex_cfg = Inr [w_kan, w_kana]"
    by (simp add: eval_defs ex_cfg_def w_kan_def w_kana_def)
  have k: "iskanji w_3d"
    by (simp add: w_3d_def)
  from latin_prefix_removed_first [of _ ex_cfg w_3d "[w_kan]" "[w_kana]", THEN conjunct2] b
  have "merge_and_filter_words ([w_kan] @ w_3d # [w_kana]) ex_cfg =
      merge_and_filter_words ([w_kan] @ [w_kana]) ex_cfg"
    by blast
  with b k n run show ?thesis
    by blast
qed

text \<open>
  C4. When no word is left after the filter on the first character, also when the input
  is empty, \<^verbatim>\<open>merge_and_filter_words\<close> raises \<^verbatim>\<open>IndexError\<close>.
\<close>

theorem empty_after_filter_fails:
  assumes "filter (\<lambda>w. \<not> re_match regex (string w)) words_raw = []"
  shows "merge_and_filter_words words_raw cfg = Inl IndexError"
  using assms by (simp add: merge_and_filter_words_def merge_words_def index_def)

theorem empty_after_filter_fails_witness:
  "filter (\<lambda>w. \<not> re_match regex (string w)) [w_3d] = [] \<and>
   merge_and_filter_words [w_3d] ex_cfg = Inl IndexError \<and>
   merge_and_filter_words [] ex_cfg = Inl IndexError"
proof -
  have e: "filter (\<lambda>w. \<not> re_match regex (string w)) [w_3d] = []"
    by (simp add: w_3d_def regex_def)
  have n: "filter (\<lambda>w. \<not> re_match regex (string w)) [] = []"
    by simp
  from empty_after_filter_fails [OF e, of ex_cfg] empty_after_filter_fails [OF n, of ex_cfg] e
  show ?thesis by simp
qed

section \<open>The grouping\<close>

lemma vocab_loop_eq:
  "vocab_loop a b ws qs = qs @ filter (\<lambda>k. a \<le> yt k \<and> yb k \<le> b \<and> \<not> iskanji k) ws"
  by (induction ws arbitrary: qs) simp_all

lemma group_of_fun:
  "group_of cfg m = (\<lambda>k. k # filter (\<lambda>v. \<not> iskanji v \<and> within_window cfg k v) m)"
  by (rule ext) (simp add: group_of_def)

lemma groups_Cons:
  "concat (map (group_of cfg m) (k # ks)) =
     k # (filter (\<lambda>v. \<not> iskanji v \<and> within_window cfg k v) m @ concat (map (group_of cfg m) ks))"
  by (simp only: list.map concat.simps group_of_def [of cfg m k] append_Cons)

lemma kanji_loop_eq:
  "kanji_loop cfg m ws qs = qs @ concat (map (group_of cfg m) (filter iskanji ws))"
proof (induction ws arbitrary: qs)
  case Nil
  show ?case by simp
next
  case (Cons w ws)
  have "(\<lambda>k. yt w - max_distance_from_kanji_top cfg \<le> yt k \<and>
             yb k \<le> yb w + max_distance_from_kanji_bottom cfg \<and> \<not> iskanji k) =
        (\<lambda>v. \<not> iskanji v \<and> within_window cfg w v)"
    by (auto simp: within_window_def)
  then show ?case
    by (simp add: Cons.IH vocab_loop_eq group_of_def Let_def)
qed

lemma merge_and_filter_words_eq:
  "merge_and_filter_words words_raw cfg =
     (case merge_words cfg (filter (\<lambda>w. \<not> begins_latin (string w)) words_raw) of
        Inl e \<Rightarrow> Inl e
      | Inr m \<Rightarrow> Inr (concat (map (group_of cfg m) (filter iskanji m))))"
  by (simp add: merge_and_filter_words_def re_match_begins kanji_loop_eq split: sum.splits)

lemma grouped_vocab:
  assumes "\<forall>v \<in> set vs. \<not> iskanji v \<and> within_window cfg k v"
  shows "grouped cfg (Some k) (vs @ rest) = grouped cfg (Some k) rest"
  using assms by (induction vs) simp_all

lemma grouped_groups:
  assumes "\<forall>k \<in> set ks. iskanji k"
  shows "grouped cfg cur (concat (map (group_of cfg m) ks))"
  using assms
proof (induction ks arbitrary: cur)
  case Nil
  show ?case by simp
next
  case (Cons k ks)
  let ?vs = "filter (\<lambda>v. \<not> iskanji v \<and> within_window cfg k v) m"
  let ?rest = "concat (map (group_of cfg m) ks)"
  from Cons have "grouped cfg (Some k) ?rest"
    by simp
  then have "grouped cfg (Some k) (?vs @ ?rest)"
    by (simp add: grouped_vocab)
  moreover from Cons.prems have "iskanji k"
    by simp
  ultimately show ?case
    unfolding groups_Cons by simp
qed

lemma hd_groups:
  assumes "\<forall>k \<in> set ks. iskanji k" and "concat (map (group_of cfg m) ks) \<noteq> []"
  shows "iskanji (hd (concat (map (group_of cfg m) ks)))"
proof (cases ks)
  case Nil
  with assms(2) show ?thesis by simp
next
  case (Cons k ks')
  have "hd (concat (map (group_of cfg m) (k # ks'))) = k"
    unfolding groups_Cons by simp
  with assms(1) Cons show ?thesis by simp
qed

lemma count_list_filter_eq:
  "count_list (filter P ws) v = (if P v then count_list ws v else 0)"
  by (induction ws) auto

lemma count_groups:
  assumes "\<forall>k \<in> set ks. iskanji k" and "\<not> iskanji v"
  shows "count_list (concat (map (group_of cfg m) ks)) v =
         count_list m v * length (filter (\<lambda>k. within_window cfg k v) ks)"
  using assms
proof (induction ks)
  case Nil
  show ?case by simp
next
  case (Cons k ks)
  from Cons.prems have "k \<noteq> v"
    by auto
  with Cons show ?case
    unfolding groups_Cons by (simp add: count_list_filter_eq)
qed

lemma scenario_filter:
  "filter (\<lambda>w. \<not> re_match regex (string w)) [s_kan, s_ji, s_kan2, s_zi] =
     [s_kan, s_ji, s_kan2, s_zi]"
  by (simp add: eval_defs s_kan_def s_ji_def s_kan2_def s_zi_def)

lemma scenario_merge:
  "merge_words scenario_cfg [s_kan, s_ji, s_kan2, s_zi] = Inr [s_kan, s_ji, s_kanzi]"
  by (simp add: eval_defs scenario_cfg_def s_kan_def s_ji_def s_kan2_def s_zi_def s_kanzi_def)

lemma scenario_queries:
  "merge_and_filter_words [s_kan, s_ji, s_kan2, s_zi] scenario_cfg =
     Inr [s_kan, s_kanzi, s_ji, s_kanzi]"
  by (simp add: eval_defs scenario_cfg_def s_kan_def s_ji_def s_kan2_def s_zi_def s_kanzi_def)

text \<open>
  C2. When the merge pass returns the list \<open>merged\<close>, the result is, for each kanji of
  \<open>merged\<close> in order, that kanji followed by the words of \<open>merged\<close> that are not kanji and
  whose band lies within the kanji's window, in the order of \<open>merged\<close>. A word that is not
  a kanji therefore occurs once for every kanji whose window holds it (times its number of
  occurrences in \<open>merged\<close>).
\<close>

theorem queries_by_kanji:
  assumes "merge_words cfg (filter (\<lambda>w. \<not> re_match regex (string w)) words_raw) = Inr merged"
  shows "\<exists>queries. merge_and_filter_words words_raw cfg = Inr queries \<and>
     queries = concat (map (\<lambda>k. k # filter (\<lambda>v. \<not> iskanji v \<and> within_window cfg k v) merged)
                        (filter iskanji merged)) \<and>
     (\<forall>v. \<not> iskanji v \<longrightarrow>
        count_list queries v =
          count_list merged v * length (filter (\<lambda>k. iskanji k \<and> within_window cfg k v) merged))"
proof -
  let ?qs = "concat (map (group_of cfg merged) (filter iskanji merged))"
  from assms have run: "merge_and_filter_words words_raw cfg = Inr ?qs"
    by (simp add: merge_and_filter_words_eq re_match_begins)
  have form: "?qs = concat (map (\<lambda>k. k # filter (\<lambda>v. \<not> iskanji v \<and> within_window cfg k v) merged)
                        (filter iskanji merged))"
    by (simp add: group_of_fun)
  have "count_list ?qs v =
          count_list merged v * length (filter (\<lambda>k. iskanji k \<and> within_window cfg k v) merged)"
    if "\<not> iskanji v" for v
    using count_groups [of "filter iskanji merged" v cfg merged] that
    by (simp add: conj_commute)
  with run form show ?thesis
    by simp
qed

theorem queries_by_kanji_witness:
  "merge_words scenario_cfg (filter (\<lambda>w. \<not> re_match regex (string w)) [s_kan, s_ji, s_kan2, s_zi])
     = Inr [s_kan, s_ji, s_kanzi] \<and>
   merge_and_filter_words [s_kan, s_ji, s_kan2, s_zi] scenario_cfg =
     Inr [s_kan, s_kanzi, s_ji, s_kanzi] \<and>
   count_list [s_kan, s_kanzi, s_ji, s_kanzi] s_kanzi = 2"
proof -
  have m: "merge_words scenario_cfg
      (filter (\<lambda>w. \<not> re_match regex (string w)) [s_kan, s_ji, s_kan2, s_zi]) =
        Inr [s_kan, s_ji, s_kanzi]"
    by (simp only: scenario_filter scenario_merge)
  from queries_by_kanji [OF m]
  have run: "merge_and_filter_words [s_kan, s_ji, s_kan2, s_zi] scenario_cfg =
      Inr [s_kan, s_kanzi, s_ji, s_kanzi]"
    by (auto simp: within_window_def scenario_cfg_def s_kan_def s_ji_def s_kanzi_def)
  have "count_list [s_kan, s_kanzi, s_ji, s_kanzi] s_kanzi = 2"
    by (simp add: s_kan_def s_ji_def s_kanzi_def)
  with m run show ?thesis
    by blast
qed

section \<open>The merge loop\<close>

lemma flush_Cons: "flush (a # b # rest) st = flush (b # rest) st"
  by (simp add: flush_def split: prod.splits)

text \<open>A buffer that is not in progress has no effect on the result.\<close>

lemma merge_loop_unset:
  "flush ws (merge_loop cfg ws (acc, False, b)) = flush ws (merge_loop cfg ws (acc, False, b'))"
proof (induction ws arbitrary: acc rule: induct_list012)
  case 1
  show ?case by (simp add: flush_def)
next
  case (2 cur)
  show ?case by (simp add: flush_def)
next
  case (3 cur nxt rest)
  show ?case
  proof (cases "iskanji cur")
    case True
    then show ?thesis
      using 3(2) [of "acc @ [copy cur]"] by (simp add: loop_body_def flush_Cons)
  next
    case False
    then show ?thesis
      by (simp add: loop_body_def)
  qed
qed

lemma merge_words_Cons:
  "merge_words cfg (w # ws) = Inr (flush (w # ws) (merge_loop cfg (w # ws) ([], False, b)))"
  using merge_loop_unset [of "w # ws" cfg "[]" "copy w" b]
  by (simp add: merge_words_def index_def)

lemma merge_words_Nil: "merge_words cfg [] = Inl IndexError"
  by (simp add: merge_words_def index_def)

lemma discard_step:
  assumes "iskanji v = False" and "iskanji k = True"
    and "\<bar>xl k - xr v\<bar> \<le> min_interword_distance cfg" and "rest \<noteq> []"
  shows "flush (v # k # rest) (merge_loop cfg (v # k # rest) st) =
         flush (k # rest) (merge_loop cfg (k # rest) st)"
proof -
  obtain acc s b where st: "st = (acc, s, b)"
    by (cases st)
  from assms(4) obtain r rest' where rest: "rest = r # rest'"
    by (cases rest) auto
  show ?thesis
    using assms(1-3) merge_loop_unset [of "r # rest'" cfg "acc @ [copy k]"]
    by (simp add: st rest loop_body_def flush_Cons)
qed

text \<open>Merging makes no kanji: the flag of a buffer is that of its first fragment.\<close>

lemma loop_body_no_kanji:
  assumes "\<not> iskanji cur" and "\<forall>w \<in> set acc. \<not> iskanji w" and "s \<longrightarrow> \<not> iskanji b"
    and "loop_body cfg cur nxt (acc, s, b) = (acc', s', b')"
  shows "(\<forall>w \<in> set acc'. \<not> iskanji w) \<and> (s' \<longrightarrow> \<not> iskanji b')"
  using assms by (auto simp: loop_body_def merge_def copy_def Let_def split: if_splits)

lemma merge_loop_no_kanji:
  assumes "\<forall>w \<in> set ws. \<not> iskanji w" and "\<forall>w \<in> set acc. \<not> iskanji w" and "s \<longrightarrow> \<not> iskanji b"
    and "merge_loop cfg ws (acc, s, b) = (acc', s', b')"
  shows "(\<forall>w \<in> set acc'. \<not> iskanji w) \<and> (s' \<longrightarrow> \<not> iskanji b')"
  using assms
proof (induction ws arbitrary: acc s b rule: induct_list012)
  case 1
  then show ?case by simp
next
  case (2 cur)
  then show ?case by simp
next
  case (3 cur nxt rest)
  obtain acc1 s1 b1 where step: "loop_body cfg cur nxt (acc, s, b) = (acc1, s1, b1)"
    by (cases "loop_body cfg cur nxt (acc, s, b)")
  from "3.prems"(1) have cur: "\<not> iskanji cur" and tl: "\<forall>w \<in> set (nxt # rest). \<not> iskanji w"
    by simp_all
  from loop_body_no_kanji [OF cur "3.prems"(2,3) step]
  have inv: "\<forall>w \<in> set acc1. \<not> iskanji w" "s1 \<longrightarrow> \<not> iskanji b1"
    by simp_all
  from "3.prems"(4) have "merge_loop cfg (nxt # rest) (acc1, s1, b1) = (acc', s', b')"
    by (simp add: step)
  from "3.IH"(2) [OF tl inv this] show ?case .
qed

lemma merge_words_no_kanji:
  assumes "\<forall>w \<in> set ws. \<not> iskanji w" and "merge_words cfg ws = Inr m"
  shows "\<forall>w \<in> set m. \<not> iskanji w"
proof (cases ws)
  case Nil
  with assms(2) show ?thesis by (simp add: merge_words_Nil)
next
  case (Cons w ws')
  obtain acc s b where r: "merge_loop cfg ws ([], False, copy w) = (acc, s, b)"
    by (cases "merge_loop cfg ws ([], False, copy w)")
  have "(\<forall>w \<in> set acc. \<not> iskanji w) \<and> (s \<longrightarrow> \<not> iskanji b)"
    by (rule merge_loop_no_kanji [OF assms(1) _ _ r]) simp_all
  moreover from assms(2) have "m = flush ws (acc, s, b)"
    using r by (simp add: merge_words_def index_def Cons)
  moreover have "\<not> iskanji (last ws)"
    using assms(1) Cons last_in_set [of ws] by blast
  ultimately show ?thesis
    by (auto simp: flush_def)
qed

text \<open>
  C9. When a word is left after the filter, \<^verbatim>\<open>merge_and_filter_words\<close> returns a query
  list; if the list is not empty its first word is a kanji, every word of it that is not
  a kanji lies within the window of the most recent kanji before it, and the list is
  empty when no word left after the filter is a kanji.
\<close>

theorem queries_grouped:
  assumes "filter (\<lambda>w. \<not> re_match regex (string w)) words_raw \<noteq> []"
  shows "\<exists>queries. merge_and_filter_words words_raw cfg = Inr queries \<and>
     (queries \<noteq> [] \<longrightarrow> iskanji (hd queries)) \<and>
     grouped cfg None queries \<and>
     ((\<forall>w \<in> set (filter (\<lambda>w. \<not> re_match regex (string w)) words_raw). \<not> iskanji w)
        \<longrightarrow> queries = [])"
proof -
  let ?fs = "filter (\<lambda>w. \<not> re_match regex (string w)) words_raw"
  from assms obtain f fs where fs: "?fs = f # fs"
    by (cases ?fs) auto
  then obtain m where m: "merge_words cfg ?fs = Inr m"
    by (simp add: merge_words_def index_def)
  let ?qs = "concat (map (group_of cfg m) (filter iskanji m))"
  from m have run: "merge_and_filter_words words_raw cfg = Inr ?qs"
    by (simp add: merge_and_filter_words_eq re_match_begins)
  have ks: "\<forall>k \<in> set (filter iskanji m). iskanji k"
    by simp
  have "?qs = []" if "\<forall>w \<in> set ?fs. \<not> iskanji w"
  proof -
    from merge_words_no_kanji [OF that m] have "filter iskanji m = []"
      by (simp add: filter_empty_conv)
    then show ?thesis by simp
  qed
  with run hd_groups [OF ks] grouped_groups [OF ks] show ?thesis
    by blast
qed

theorem queries_grouped_witness:
  "filter (\<lambda>w. \<not> re_match regex (string w)) [s_kan, s_ji, s_kan2, s_zi] \<noteq> [] \<and>
   merge_and_filter_words [s_kan, s_ji, s_kan2, s_zi] scenario_cfg =
     Inr [s_kan, s_kanzi, s_ji, s_kanzi] \<and>
   iskanji (hd [s_kan, s_kanzi, s_ji, s_kanzi]) \<and>
   grouped scenario_cfg None [s_kan, s_kanzi, s_ji, s_kanzi] \<and>
   list_all (\<lambda>w. \<not> iskanji w) (filter (\<lambda>w. \<not> re_match regex (string w)) [s_kan2, s_zi]) \<and>
   merge_and_filter_words [s_kan2, s_zi] scenario_cfg = Inr []"
proof -
  have ne: "filter (\<lambda>w. \<not> re_match regex (string w)) [s_kan, s_ji, s_kan2, s_zi] \<noteq> []"
    unfolding scenario_filter by simp
  have f2: "filter (\<lambda>w. \<not> re_match regex (string w)) [s_kan2, s_zi] = [s_kan2, s_zi]"
    by (simp add: eval_defs s_kan2_def s_zi_def)
  then have ne2: "filter (\<lambda>w. \<not> re_match regex (string w)) [s_kan2, s_zi] \<noteq> []"
    by simp
  have nk: "\<forall>w \<in> set (filter (\<lambda>w. \<not> re_match regex (string w)) [s_kan2, s_zi]). \<not> iskanji w"
    by (simp add: f2 s_kan2_def s_zi_def)
  from queries_grouped [OF ne, of scenario_cfg] queries_grouped [OF ne2, of scenario_cfg]
    scenario_queries nk ne
  show ?thesis
    by (auto simp: list_all_iff)
qed

text \<open>
  C10. When a word that is not a kanji is followed, within \<open>min_interword_distance\<close>, by
  a kanji that is not the last word, the buffer that holds the word is dropped when the
  kanji is processed: from any state of the loop the result is the one obtained without
  the word, and so is the result of the merge pass when the word is the first one. There
  is an input with such a word whose text occurs in no word of the result.
\<close>

theorem buffer_discarded_at_kanji:
  "(iskanji v = False \<and> iskanji k = True \<and>
    \<bar>xl k - xr v\<bar> \<le> min_interword_distance cfg \<and> rest \<noteq> [] \<longrightarrow>
      flush (v # k # rest) (merge_loop cfg (v # k # rest) st) =
        flush (k # rest) (merge_loop cfg (k # rest) st) \<and>
      merge_words cfg (v # k # rest) = merge_words cfg (k # rest)) \<and>
   (\<exists>ws c u queries.
      u \<in> set ws \<and> iskanji u = False \<and> \<not> re_match regex (string u) \<and>
      merge_and_filter_words ws c = Inr queries \<and> queries \<noteq> [] \<and>
      list_all (\<lambda>q. \<not> sublist (string u) (string q)) queries)"
proof -
  have ex: "merge_and_filter_words [w_kan2, w_ji, w_ka] ex_cfg = Inr [w_ji, w_ka]"
    by (simp add: eval_defs w_kan2_def w_ji_def w_ka_def ex_cfg_def)
  have "\<not> sublist (string w_kan2) (string w_ji)" "\<not> sublist (string w_kan2) (string w_ka)"
    by (simp_all add: w_kan2_def w_ji_def w_ka_def ji_def ka_def nn_def sublist_Cons_right)
  moreover have "\<not> re_match regex (string w_kan2)"
    by (simp add: w_kan2_def regex_def ka_def)
  ultimately have "w_kan2 \<in> set [w_kan2, w_ji, w_ka] \<and> iskanji w_kan2 = False \<and>
      \<not> re_match regex (string w_kan2) \<and>
      merge_and_filter_words [w_kan2, w_ji, w_ka] ex_cfg = Inr [w_ji, w_ka] \<and>
      [w_ji, w_ka] \<noteq> [] \<and>
      list_all (\<lambda>q. \<not> sublist (string w_kan2) (string q)) [w_ji, w_ka]"
    using ex by (simp add: w_kan2_def)
  then have "\<exists>ws c u queries.
      u \<in> set ws \<and> iskanji u = False \<and> \<not> re_match regex (string u) \<and>
      merge_and_filter_words ws c = Inr queries \<and> queries \<noteq> [] \<and>
      list_all (\<lambda>q. \<not> sublist (string u) (string q)) queries"
    by blast
  moreover have "merge_words cfg (v # k # rest) = merge_words cfg (k # rest)"
    if "iskanji v = False" "iskanji k = True"
      "\<bar>xl k - xr v\<bar> \<le> min_interword_distance cfg" "rest \<noteq> []"
    using discard_step [OF that, of "([], False, copy v)"]
    by (simp add: merge_words_Cons [of cfg _ _ "copy v"])
  ultimately show ?thesis
    using discard_step [of v k cfg rest st] by blast
qed

theorem buffer_discarded_at_kanji_witness:
  "iskanji w_kan2 = False \<and> iskanji w_ji = True \<and>
   \<bar>xl w_ji - xr w_kan2\<bar> \<le> min_interword_distance ex_cfg \<and> [w_ka] \<noteq> [] \<and>
   merge_words ex_cfg (w_kan2 # w_ji # [w_ka]) = merge_words ex_cfg (w_ji # [w_ka]) \<and>
   merge_words ex_cfg (w_ji # [w_ka]) = Inr [w_ji, w_ka]"
proof -
  have h: "iskanji w_kan2 = False \<and> iskanji w_ji = True \<and>
      \<bar>xl w_ji - xr w_kan2\<bar> \<le> min_interword_distance ex_cfg \<and> [w_ka] \<noteq> []"
    by (simp add: w_kan2_def w_ji_def ex_cfg_def)
  have run: "merge_words ex_cfg (w_ji # [w_ka]) = Inr [w_ji, w_ka]"
    by (simp add: eval_defs ex_cfg_def w_ji_def w_ka_def)
  from buffer_discarded_at_kanji [of w_kan2 w_ji ex_cfg "[w_ka]" "([], False, copy w_kan2)"] h run
  show ?thesis
    by simp
qed

subsection \<open>What the merge pass does by design\<close>

lemma loop_body_acc:
  "loop_body cfg c n (acc @ ws, s, b) =
     (case loop_body cfg c n (ws, s, b) of (ws', s', b') \<Rightarrow> (acc @ ws', s', b'))"
  by (simp add: loop_body_def Let_def)

lemma merge_loop_acc:
  "merge_loop cfg xs (acc @ ws, s, b) =
     (case merge_loop cfg xs (ws, s, b) of (ws', s', b') \<Rightarrow> (acc @ ws', s', b'))"
proof (induction xs arbitrary: ws s b rule: induct_list012)
  case (3 c n rest)
  obtain ws1 s1 b1 where step: "loop_body cfg c n (ws, s, b) = (ws1, s1, b1)"
    by (cases "loop_body cfg c n (ws, s, b)")
  then show ?case
    using 3(2) [of ws1 s1 b1] by (simp add: loop_body_acc)
qed simp_all

lemma flush_acc:
  "flush xs (merge_loop cfg xs (acc, s, b)) = acc @ flush xs (merge_loop cfg xs ([], s, b))"
  using merge_loop_acc [of cfg xs acc "[]" s b]
  by (simp add: flush_def split: prod.splits)

lemma merge_loop_split:
  "merge_loop cfg (xs @ c # ys) st = merge_loop cfg (c # ys) (merge_loop cfg (xs @ [c]) st)"
proof (induction xs arbitrary: st)
  case Nil
  show ?case by simp
next
  case (Cons a xs)
  show ?case
  proof (cases xs)
    case Nil
    then show ?thesis by simp
  next
    case (Cons a' xs')
    with Cons.IH [of "loop_body cfg a a' st"] show ?thesis by simp
  qed
qed

lemma flush_fresh:
  "flush (p # ps) (merge_loop cfg (p # ps) (acc, False, b)) = acc @ fresh cfg (p # ps)"
  using flush_acc [of "p # ps" cfg acc False b] merge_loop_unset [of "p # ps" cfg "[]" b "copy p"]
  by (simp add: fresh_def merge_words_def index_def)

lemma merged_run_snoc:
  "run \<noteq> [] \<Longrightarrow> merge (merged_run run) n = merged_run (run @ [n])"
  by (simp add: merged_run_def merge_def)

text \<open>A buffer in progress: \<open>cur\<close> is the last fragment merged into it.\<close>

lemma run_in_progress:
  assumes "\<forall>w \<in> set (cur # frs). \<not> iskanji w" and "chain cfg (cur # frs)"
    and "post = [] \<or> \<not> near cfg (last (cur # frs)) (hd post)"
    and "seen \<noteq> []"
  shows "flush (cur # frs @ post) (merge_loop cfg (cur # frs @ post) (acc, True, merged_run seen)) =
           acc @ merged_run (seen @ frs) # fresh cfg post"
  using assms
proof (induction frs arbitrary: cur seen)
  case Nil
  show ?case
  proof (cases post)
    case Nil
    then show ?thesis
      by (simp add: flush_def fresh_def merge_words_def index_def)
  next
    case (Cons p ps)
    with Nil.prems have "\<not> near cfg cur p" "\<not> iskanji cur"
      by simp_all
    then show ?thesis
      using flush_fresh [of p ps cfg "acc @ [merged_run seen]" "merged_run seen"]
      by (simp add: Cons loop_body_def near_def flush_Cons)
  qed
next
  case (Cons m frs)
  from Cons.prems have step: "near cfg cur m" "\<not> iskanji cur"
    by simp_all
  have "flush (m # frs @ post)
          (merge_loop cfg (m # frs @ post) (acc, True, merged_run (seen @ [m]))) =
        acc @ merged_run ((seen @ [m]) @ frs) # fresh cfg post"
    using Cons.prems by (intro Cons.IH) simp_all
  with step Cons.prems(4) show ?case
    by (simp add: loop_body_def near_def flush_Cons merged_run_snoc)
qed

lemma merged_run_single: "merged_run [r] = r"
  by (simp add: merged_run_def)

lemma merged_run_pair: "merge r m = merged_run [r, m]"
  by (simp add: merged_run_def merge_def)

text \<open>A run that begins when no buffer is in progress.\<close>

lemma run_from_unset:
  assumes "\<forall>w \<in> set (r # frs). \<not> iskanji w" and "chain cfg (r # frs)"
    and "post = [] \<or> \<not> near cfg (last (r # frs)) (hd post)"
  shows "flush (r # frs @ post) (merge_loop cfg (r # frs @ post) (acc, False, b)) =
           acc @ merged_run (r # frs) # fresh cfg post"
proof (cases frs)
  case Nil
  show ?thesis
  proof (cases post)
    case Nil
    with \<open>frs = []\<close> show ?thesis
      by (simp add: flush_def fresh_def merge_words_def index_def merged_run_single)
  next
    case (Cons p ps)
    with assms \<open>frs = []\<close> have "\<not> near cfg r p" "\<not> iskanji r"
      by simp_all
    then show ?thesis
      using flush_fresh [of p ps cfg "acc @ [r]" r]
      by (simp add: Cons \<open>frs = []\<close> loop_body_def near_def flush_Cons merged_run_single copy_def)
  qed
next
  case (Cons m frs')
  from assms Cons have step: "near cfg r m" "\<not> iskanji r"
    by simp_all
  have "flush (m # frs' @ post)
          (merge_loop cfg (m # frs' @ post) (acc, True, merged_run ([r] @ [m]))) =
        acc @ merged_run (([r] @ [m]) @ frs') # fresh cfg post"
    using assms Cons by (intro run_in_progress) simp_all
  with step show ?thesis
    by (simp add: Cons loop_body_def near_def flush_Cons copy_def merged_run_pair)
qed

lemma flush_append: "ys \<noteq> [] \<Longrightarrow> flush (xs @ ys) st = flush ys st"
  by (simp add: flush_def split: prod.splits)

lemma unset_after:
  assumes "pre = [] \<or> iskanji (last pre) \<or> \<not> near cfg (last pre) r"
  shows "fst (snd (merge_loop cfg (pre @ [r]) (acc, False, b))) = False"
proof (cases pre rule: rev_cases)
  case Nil
  then show ?thesis by simp
next
  case (snoc pre' p)
  obtain acc1 s1 b1 where st: "merge_loop cfg (pre' @ [p]) (acc, False, b) = (acc1, s1, b1)"
    by (cases "merge_loop cfg (pre' @ [p]) (acc, False, b)")
  have "merge_loop cfg (pre @ [r]) (acc, False, b) = loop_body cfg p r (acc1, s1, b1)"
    using merge_loop_split [of cfg pre' p "[r]" "(acc, False, b)"] by (simp add: snoc st)
  with assms snoc show ?thesis
    by (auto simp: loop_body_def near_def Let_def)
qed

text \<open>
  What the merge pass does with a maximal run of words that are not kanji, when the word
  after the run, if there is one, is farther than \<open>min_interword_distance\<close>.
\<close>

lemma merge_words_split:
  assumes "merge_loop cfg (pre @ [c]) ([], False, copy (hd (pre @ [c]))) = st"
  shows "merge_words cfg (pre @ c # post) = Inr (flush (c # post) (merge_loop cfg (c # post) st))"
proof -
  define b0 where "b0 = copy (hd (pre @ [c]))"
  have "hd (pre @ c # post) = hd (pre @ [c])"
    by (cases pre) simp_all
  then have "merge_words cfg (pre @ c # post) =
      Inr (flush (pre @ c # post) (merge_loop cfg (pre @ c # post) ([], False, b0)))"
    by (cases pre) (simp_all add: merge_words_def index_def b0_def)
  also have "merge_loop cfg (pre @ c # post) ([], False, b0) = merge_loop cfg (c # post) st"
    using merge_loop_split [of cfg pre c post "([], False, b0)"] assms
    by (simp add: b0_def)
  also have "flush (pre @ c # post) \<dots> = flush (c # post) \<dots>"
    by (rule flush_append) simp
  finally show ?thesis .
qed

lemma run_merged:
  assumes "run \<noteq> []" and "\<forall>w \<in> set run. \<not> iskanji w" and "chain cfg run"
    and "pre = [] \<or> iskanji (last pre) \<or> \<not> near cfg (last pre) (hd run)"
    and "post = [] \<or> \<not> near cfg (last run) (hd post)"
  shows "merge_words cfg (pre @ run @ post) =
     Inr (fst (merge_loop cfg (pre @ [hd run]) ([], False, copy (hd (pre @ [hd run]))))
          @ merged_run run # fresh cfg post)"
proof -
  from assms(1) obtain r frs where run: "run = r # frs"
    by (cases run) auto
  define b0 where "b0 = copy (hd (pre @ [r]))"
  obtain acc1 s1 b1 where st: "merge_loop cfg (pre @ [r]) ([], False, b0) = (acc1, s1, b1)"
    by (cases "merge_loop cfg (pre @ [r]) ([], False, b0)")
  from assms(4) have "pre = [] \<or> iskanji (last pre) \<or> \<not> near cfg (last pre) r"
    by (simp add: run)
  from unset_after [OF this, of "[]" b0] st have s1: "s1 = False"
    by simp
  have "merge_words cfg (pre @ r # frs @ post) =
      Inr (flush (r # frs @ post) (merge_loop cfg (r # frs @ post) (acc1, False, b1)))"
    using merge_words_split [of cfg pre r "(acc1, s1, b1)" "frs @ post"] st s1
    by (simp add: b0_def)
  also have "flush (r # frs @ post) (merge_loop cfg (r # frs @ post) (acc1, False, b1)) =
      acc1 @ merged_run (r # frs) # fresh cfg post"
    using assms(2,3,5) by (intro run_from_unset) (simp_all add: run)
  finally show ?thesis
    using st by (simp add: run b0_def)
qed

text \<open>
  What the merge pass does with a kanji: one that is not the last word is appended as it
  is, and so is a last one unless the word before it is not a kanji and lies within
  \<open>min_interword_distance\<close>.
\<close>

lemma kanji_appended:
  assumes "iskanji k"
    and "post \<noteq> [] \<or> pre = [] \<or> iskanji (last pre) \<or> \<not> near cfg (last pre) k"
  shows "merge_words cfg (pre @ k # post) =
     Inr (fst (merge_loop cfg (pre @ [k]) ([], False, copy (hd (pre @ [k])))) @ k # fresh cfg post)"
proof -
  define b0 where "b0 = copy (hd (pre @ [k]))"
  obtain acc1 s1 b1 where st: "merge_loop cfg (pre @ [k]) ([], False, b0) = (acc1, s1, b1)"
    by (cases "merge_loop cfg (pre @ [k]) ([], False, b0)")
  have start: "merge_words cfg (pre @ k # post) =
      Inr (flush (k # post) (merge_loop cfg (k # post) (acc1, s1, b1)))"
    using merge_words_split [of cfg pre k "(acc1, s1, b1)" post] st
    by (simp add: b0_def)
  have "flush (k # post) (merge_loop cfg (k # post) (acc1, s1, b1)) = acc1 @ k # fresh cfg post"
  proof (cases post)
    case Nil
    with assms(2) have "pre = [] \<or> iskanji (last pre) \<or> \<not> near cfg (last pre) k"
      by simp
    from unset_after [OF this, of "[]" b0] st have "s1 = False"
      by simp
    with Nil show ?thesis
      by (simp add: flush_def fresh_def merge_words_def index_def)
  next
    case (Cons p ps)
    with assms(1) flush_fresh [of p ps cfg "acc1 @ [k]" b1] show ?thesis
      by (simp add: loop_body_def flush_Cons copy_def)
  qed
  with start st show ?thesis
    by (simp add: b0_def)
qed

lemma kanji_in_queries:
  assumes "merge_words cfg (filter (\<lambda>w. \<not> re_match regex (string w)) words_raw) = Inr m"
    and "k \<in> set m" and "iskanji k"
  shows "\<exists>queries. merge_and_filter_words words_raw cfg = Inr queries \<and> k \<in> set queries"
proof -
  from assms(2,3) have "k \<in> set (concat (map (group_of cfg m) (filter iskanji m)))"
    by (auto simp: group_of_def)
  with assms(1) show ?thesis
    by (simp add: merge_and_filter_words_eq re_match_begins)
qed

subsection \<open>The kanji reached as the next word\<close>

text \<open>
  C1. The input is a kanji, a small word beside it, and a second kanji that begins one
  pixel after the small word ends. The second kanji is the last word, so no pass of the
  loop has it as the current word: the pass for the small word merges it into the
  buffer, and the flush appends the buffer. The result holds the first kanji and a word
  that is not a kanji, whose text is that of the small word followed by that of the
  second kanji; the second kanji itself is not in the result.
\<close>

theorem last_kanji_merged:
  "merge_and_filter_words [w_kan, w_kan2, w_ji] ex_cfg =
     Inr [w_kan, \<lparr>string = ka @ nn @ ji, yb = 30, yt = 10, xl = 60, xr = 141, iskanji = False\<rparr>] \<and>
   iskanji w_ji \<and>
   w_ji \<notin> set [w_kan,
     \<lparr>string = ka @ nn @ ji, yb = 30, yt = 10, xl = 60, xr = 141, iskanji = False\<rparr>] \<and>
   ka @ nn @ ji = string w_kan2 @ string w_ji"
  by (simp add: eval_defs ex_cfg_def w_kan_def w_kan2_def w_ji_def)

text \<open>
  C3. The input is a run of two fragments one pixel apart, followed one pixel later by a
  kanji, the last word. The merge pass returns one word: its text is the text of the run
  followed by that of the kanji, and its right edge is the right edge of the kanji,
  where the merged word of the run has the text of the run alone and the right edge of
  its last fragment.
\<close>

theorem run_absorbs_kanji:
  "merge_words ex_cfg [w_ka_l, w_nn_r, w_ji] =
     Inr [\<lparr>string = ka @ nn @ ji, yb = 30, yt = 10, xl = 60, xr = 141, iskanji = False\<rparr>] \<and>
   merged_run [w_ka_l, w_nn_r] =
     \<lparr>string = ka @ nn, yb = 30, yt = 10, xl = 60, xr = 90, iskanji = False\<rparr> \<and>
   chain ex_cfg [w_ka_l, w_nn_r] \<and> near ex_cfg w_nn_r w_ji \<and> iskanji w_ji"
  by (simp add: eval_defs ex_cfg_def w_ka_l_def w_nn_r_def w_ji_def merged_run_def near_def)

end
